theory Spec2Isabelle
  imports Main "HOL-Library.Word"
begin

section \<open>JavaScript \<open>Map\<close>: a keyed store that remembers insertion order\<close>

text \<open>
  A JavaScript \<open>Map\<close> iterates its entries in insertion order. \<open>set\<close> on a key that is
  already present overwrites the value where the key stands; \<open>set\<close> on a new key appends
  the entry; \<open>delete\<close> removes the entry; \<open>keys().next().value\<close> is the key inserted
  first. The model is an association list in insertion order.
\<close>

type_synonym ('k, 'v) js_map = "('k \<times> 'v) list"

definition map_get :: "('k, 'v) js_map \<Rightarrow> 'k \<Rightarrow> 'v option" where
  "map_get m k = map_of m k"

fun map_set :: "'k \<Rightarrow> 'v \<Rightarrow> ('k, 'v) js_map \<Rightarrow> ('k, 'v) js_map" where
  "map_set k v [] = [(k, v)]"
| "map_set k v (p # m) = (if fst p = k then (k, v) # m else p # map_set k v m)"

definition map_delete :: "'k \<Rightarrow> ('k, 'v) js_map \<Rightarrow> ('k, 'v) js_map" where
  "map_delete k m = filter (\<lambda>p. fst p \<noteq> k) m"

definition map_size :: "('k, 'v) js_map \<Rightarrow> int" where
  "map_size m = int (length m)"

text \<open>\<open>map.delete(map.keys().next().value)\<close>: drop the first-inserted entry; on an empty
  map the key is \<open>undefined\<close> and nothing is deleted.\<close>

definition delete_oldest :: "('k, 'v) js_map \<Rightarrow> ('k, 'v) js_map" where
  "delete_oldest m = (case m of [] \<Rightarrow> [] | p # _ \<Rightarrow> map_delete (fst p) m)"

text \<open>The keys of a \<open>Map\<close> are unique.\<close>

definition wf_map :: "('k, 'v) js_map \<Rightarrow> bool" where
  "wf_map m = distinct (map fst m)"

section \<open>CooldownMap\<close>

text \<open>
  An entry is either a bare timestamp (written by \<open>touch\<close>) or an object
  \<open>{count, firstAttempt}\<close> (written by \<open>increment\<close>). \<open>Date.now()\<close> is passed to every
  operation as \<open>now\<close>, in milliseconds. The interval timer is not part of the state: the
  purge is an operation that can run between any two calls.
\<close>

datatype entry = Timestamp int | Counter (count: int) (firstAttempt: int)

record 'k CooldownMap =
  cmap :: "('k, entry) js_map"
  windowMs :: int
  maxSize :: int

definition new_CooldownMap :: "int \<Rightarrow> int \<Rightarrow> 'k CooldownMap" where
  "new_CooldownMap w ms = \<lparr>cmap = [], windowMs = w, maxSize = ms\<rparr>"

text \<open>\<open>ts != null && Date.now() - ts < windowMs\<close>. For an object entry the subtraction is
  \<open>NaN\<close> and the comparison is false. The cache is returned as it was received.\<close>

definition isLimited :: "int \<Rightarrow> 'k \<Rightarrow> 'k CooldownMap \<Rightarrow> bool \<times> 'k CooldownMap" where
  "isLimited now key c =
     (case map_get (cmap c) key of
        None \<Rightarrow> (False, c)
      | Some (Timestamp ts) \<Rightarrow> (now - ts < windowMs c, c)
      | Some (Counter n fa) \<Rightarrow> (False, c))"

definition touch :: "int \<Rightarrow> 'k \<Rightarrow> 'k CooldownMap \<Rightarrow> 'k CooldownMap" where
  "touch now key c =
     (let m = (if maxSize c \<noteq> 0 \<and> map_size (cmap c) \<ge> maxSize c
               then delete_oldest (cmap c) else cmap c)
      in c\<lparr>cmap := map_set key (Timestamp now) m\<rparr>)"

definition increment :: "int \<Rightarrow> 'k \<Rightarrow> int \<Rightarrow> 'k CooldownMap \<Rightarrow> bool \<times> 'k CooldownMap" where
  "increment now key mx c =
     (let fresh = (False, c\<lparr>cmap := map_set key (Counter 1 now) (cmap c)\<rparr>)
      in case map_get (cmap c) key of
           None \<Rightarrow> fresh
         | Some (Timestamp ts) \<Rightarrow> fresh
         | Some (Counter n fa) \<Rightarrow>
             if now - fa > windowMs c then fresh
             else (n + 1 > mx, c\<lparr>cmap := map_set key (Counter (n + 1) fa) (cmap c)\<rparr>))"

text \<open>\<open>_purge\<close>: the loop visits the entries in insertion order; for each one it takes
  the anchor (\<open>firstAttempt\<close> of an object, the value itself otherwise) and deletes the key
  from the map when the anchor is more than a window old.\<close>

fun anchor :: "entry \<Rightarrow> int" where
  "anchor (Counter n fa) = fa"
| "anchor (Timestamp ts) = ts"

fun purge_loop :: "int \<Rightarrow> int \<Rightarrow> ('k, entry) js_map \<Rightarrow> ('k, entry) js_map \<Rightarrow> ('k, entry) js_map" where
  "purge_loop now w [] m = m"
| "purge_loop now w (p # rest) m =
     (let ts = anchor (snd p)
      in if now - ts > w then purge_loop now w rest (map_delete (fst p) m)
         else purge_loop now w rest m)"

definition purge :: "int \<Rightarrow> 'k CooldownMap \<Rightarrow> 'k CooldownMap" where
  "purge now c = c\<lparr>cmap := purge_loop now (windowMs c) (cmap c) (cmap c)\<rparr>"

text \<open>Observers for the counter mode: the number of attempts recorded for a key in its
  current window (none when there is no counter entry), and the answers of a run of
  \<open>increment\<close> calls for one key made at the given clock values, in order.\<close>

definition current_count :: "'k \<Rightarrow> 'k CooldownMap \<Rightarrow> int" where
  "current_count key c =
     (case map_get (cmap c) key of Some (Counter n fa) \<Rightarrow> n | _ \<Rightarrow> 0)"

fun increment_calls :: "int list \<Rightarrow> 'k \<Rightarrow> int \<Rightarrow> 'k CooldownMap \<Rightarrow> bool list \<times> 'k CooldownMap" where
  "increment_calls [] key mx c = ([], c)"
| "increment_calls (t # ts) key mx c =
     (let (r, c1) = increment t key mx c;
          (rs, c2) = increment_calls ts key mx c1
      in (r # rs, c2))"

section \<open>adminCache\<close>

text \<open>
  The arguments \<open>chatId\<close> and \<open>userId\<close> are arbitrary JavaScript values, of which
  \<open>Number.isInteger\<close> accepts the integral numbers only. The cache key
  \<open>`${chatId}:${userId}`\<close> determines the pair of integers and is modelled by the pair.
  \<open>telegram.getChatMember\<close> is a parameter: it answers \<open>Some status\<close>, or \<open>None\<close> when the
  call rejects or throws. The field \<open>resolver_calls\<close> logs every invocation of it. The
  function reads the clock twice: \<open>now\<close> before the call is awaited, \<open>later\<close> when the
  answer is stored.
\<close>

datatype js_value = JSInteger int | JSNonIntegerNumber | JSString string | JSUndefined | JSNull

fun Number_isInteger :: "js_value \<Rightarrow> bool" where
  "Number_isInteger (JSInteger n) = True"
| "Number_isInteger v = False"

record admin_entry =
  cached_isAdmin :: bool
  expires :: int

record admin_state =
  cache :: "(int \<times> int, admin_entry) js_map"
  resolver_calls :: "(int \<times> int) list"

type_synonym telegram = "int \<Rightarrow> int \<Rightarrow> string option"

definition ADMIN_CACHE_MS :: int where
  "ADMIN_CACHE_MS = 5 * 60 * 1000"

definition ADMIN_CACHE_MAX :: int where
  "ADMIN_CACHE_MAX = 10000"

definition resolve :: "telegram \<Rightarrow> int \<Rightarrow> int \<Rightarrow> int \<Rightarrow> admin_state \<Rightarrow> bool \<times> admin_state" where
  "resolve tg later c u st =
     (let called = st\<lparr>resolver_calls := resolver_calls st @ [(c, u)]\<rparr>
      in case tg c u of
           None \<Rightarrow> (False, called)
         | Some status \<Rightarrow>
             (let result = (status = ''creator'' \<or> status = ''administrator'');
                  m = (if map_size (cache st) \<ge> ADMIN_CACHE_MAX
                       then delete_oldest (cache st) else cache st)
              in (result,
                  called\<lparr>cache := map_set (c, u)
                      \<lparr>cached_isAdmin = result, expires = later + ADMIN_CACHE_MS\<rparr> m\<rparr>)))"

text \<open>The number held by a value that \<open>Number.isInteger\<close> accepted.\<close>

fun integer_of :: "js_value \<Rightarrow> int" where
  "integer_of (JSInteger n) = n"
| "integer_of v = 0"

definition isAdmin :: "telegram \<Rightarrow> int \<Rightarrow> int \<Rightarrow> js_value \<Rightarrow> js_value \<Rightarrow> admin_state \<Rightarrow> bool \<times> admin_state" where
  "isAdmin tg now later chatId userId st =
     (if \<not> Number_isInteger chatId \<or> \<not> Number_isInteger userId then (False, st)
      else (let c = integer_of chatId; u = integer_of userId
            in case map_get (cache st) (c, u) of
                 Some cached \<Rightarrow>
                   if now < expires cached then (cached_isAdmin cached, st)
                   else resolve tg later c u st
               | None \<Rightarrow> resolve tg later c u st))"

section \<open>db: the user and settings store\<close>

text \<open>
  The two SQLite tables are maps from their primary key to the row. \<open>datetime('now')\<close> is
  the parameter \<open>now\<close>. The identifiers handed to the store by the handlers are JavaScript
  integers, so of \<open>assertSafeInteger\<close> the test \<open>value <= 0\<close> remains. A \<open>throw\<close> is the
  result \<open>Inl\<close>.
\<close>

datatype error = Invalid_setting_key string | Invalid_integer string

record user_row =
  user_id :: int
  username :: "string option"
  first_name :: "string option"
  introduced :: bool
  introduced_at :: "int option"
  joined_at :: int
  intro_msg_id :: "int option"
  updated_at :: int

record db =
  users :: "int \<rightharpoonup> user_row"
  settings :: "string \<rightharpoonup> string"

text \<open>The store after \<open>initialize\<close> on a new file: both tables are empty.\<close>

definition empty_db :: db where
  "empty_db = \<lparr>users = Map.empty, settings = Map.empty\<rparr>"

text \<open>\<open>getSetting\<close> has no \<open>throw\<close>: it answers the stored value or \<open>null\<close>.\<close>

definition getSetting :: "string \<Rightarrow> db \<Rightarrow> error + string option" where
  "getSetting key d = Inr (settings d key)"

definition VALID_SETTING_KEYS :: "string list" where
  "VALID_SETTING_KEYS = [''MAIN_GROUP_ID'', ''INTRO_CHANNEL_ID'']"

definition setSetting :: "string \<Rightarrow> string \<Rightarrow> db \<Rightarrow> error + db" where
  "setSetting key val d =
     (if key \<notin> set VALID_SETTING_KEYS then Inl (Invalid_setting_key key)
      else Inr (d\<lparr>settings := (settings d)(key \<mapsto> val)\<rparr>))"

definition assertSafeInteger :: "int \<Rightarrow> string \<Rightarrow> error + unit" where
  "assertSafeInteger v label = (if v \<le> 0 then Inl (Invalid_integer label) else Inr ())"

definition getUser :: "int \<Rightarrow> db \<Rightarrow> error + user_row option" where
  "getUser userId d =
     (case assertSafeInteger userId ''userId'' of
        Inl e \<Rightarrow> Inl e
      | Inr _ \<Rightarrow> Inr (users d userId))"

text \<open>\<open>x ? String(x).slice(0, n) : null\<close>: an absent or empty string becomes \<open>null\<close>.\<close>

definition truncated :: "nat \<Rightarrow> string option \<Rightarrow> string option" where
  "truncated n x = (case x of None \<Rightarrow> None | Some s \<Rightarrow> if s = [] then None else Some (take n s))"

definition upsertUser :: "int \<Rightarrow> int \<Rightarrow> string option \<Rightarrow> string option \<Rightarrow> db \<Rightarrow> error + db" where
  "upsertUser now userId uname fname d =
     (case assertSafeInteger userId ''userId'' of
        Inl e \<Rightarrow> Inl e
      | Inr _ \<Rightarrow>
          (let safeUsername = truncated 64 uname;
               safeFirstName = truncated 128 fname;
               row = (case users d userId of
                        None \<Rightarrow> \<lparr>user_id = userId, username = safeUsername,
                                  first_name = safeFirstName, introduced = False,
                                  introduced_at = None, joined_at = now,
                                  intro_msg_id = None, updated_at = now\<rparr>
                      | Some r \<Rightarrow> r\<lparr>username := safeUsername, first_name := safeFirstName,
                                    updated_at := now\<rparr>)
           in Inr (d\<lparr>users := (users d)(userId \<mapsto> row)\<rparr>)))"

definition markIntroduced :: "int \<Rightarrow> int \<Rightarrow> int option \<Rightarrow> db \<Rightarrow> error + db" where
  "markIntroduced now userId msgId d =
     (case assertSafeInteger userId ''userId'' of
        Inl e \<Rightarrow> Inl e
      | Inr _ \<Rightarrow>
          (case (case msgId of None \<Rightarrow> Inr () | Some i \<Rightarrow> assertSafeInteger i ''msgId'') of
             Inl e \<Rightarrow> Inl e
           | Inr _ \<Rightarrow>
               (case users d userId of
                  None \<Rightarrow> Inr d
                | Some r \<Rightarrow>
                    Inr (d\<lparr>users := (users d)(userId \<mapsto>
                      r\<lparr>introduced := True, introduced_at := Some now,
                        intro_msg_id := msgId, updated_at := now\<rparr>)\<rparr>))))"

definition resetUser :: "int \<Rightarrow> int \<Rightarrow> db \<Rightarrow> error + db" where
  "resetUser now userId d =
     (case assertSafeInteger userId ''userId'' of
        Inl e \<Rightarrow> Inl e
      | Inr _ \<Rightarrow>
          (case users d userId of
             None \<Rightarrow> Inr d
           | Some r \<Rightarrow>
               Inr (d\<lparr>users := (users d)(userId \<mapsto>
                 r\<lparr>introduced := False, introduced_at := None,
                   intro_msg_id := None, updated_at := now\<rparr>)\<rparr>)))"

section \<open>config\<close>

definition WELCOME_COOLDOWN_MS :: int where "WELCOME_COOLDOWN_MS = 5000"
definition MAX_NEW_MEMBERS_PER_EVENT :: nat where "MAX_NEW_MEMBERS_PER_EVENT = 10"
definition INTRO_KEYWORD_BYPASS_LENGTH :: nat where "INTRO_KEYWORD_BYPASS_LENGTH = 150"
definition REMINDER_COOLDOWN_MS :: int where "REMINDER_COOLDOWN_MS = 30000"
definition REMINDER_AUTO_DELETE_MS :: int where "REMINDER_AUTO_DELETE_MS = 15000"
definition INTRO_MIN_LENGTH :: nat where "INTRO_MIN_LENGTH = 50"
definition INTRO_MAX_LENGTH :: nat where "INTRO_MAX_LENGTH = 4000"

text \<open>
  A JavaScript string is a sequence of UTF-16 code units; \<open>length\<close> counts the units. A
  string literal of the source written in ASCII has one unit for each of its characters,
  with the character's code.
\<close>

type_synonym js_string = "16 word list"

definition js_literal :: "string \<Rightarrow> js_string" where
  "js_literal s = map (\<lambda>c. of_nat (of_char c)) s"

definition INTRO_KEYWORDS :: "js_string list" where
  "INTRO_KEYWORDS =
     map js_literal
       [''who are you'', ''what do you do'', ''where are you based'', ''fun fact'', ''contribute'']"

section \<open>handlers/intro: the introduction validator\<close>

text \<open>
  \<open>String.prototype.toLowerCase\<close> belongs to the JavaScript runtime: it applies the Unicode
  case mapping to the whole string and may change the number of units. It is the
  parameter \<open>toLowerCase\<close> of the validator, any function from strings to strings.
  \<open>String.prototype.includes\<close> looks for the argument, unit by unit, at every position of
  the string.
\<close>

fun includes_str :: "'u list \<Rightarrow> 'u list \<Rightarrow> bool" where
  "includes_str [] t = (t = [])"
| "includes_str (x # xs) t = (take (length t) (x # xs) = t \<or> includes_str xs t)"

definition isValidIntro :: "(js_string \<Rightarrow> js_string) \<Rightarrow> js_string \<Rightarrow> bool" where
  "isValidIntro toLowerCase text =
     (if length text < INTRO_MIN_LENGTH then False
      else if length text > INTRO_MAX_LENGTH then False
      else (let lower = toLowerCase text;
                matches = filter (\<lambda>kw. includes_str lower (toLowerCase kw)) INTRO_KEYWORDS
            in length matches \<ge> 2 \<or> length text \<ge> INTRO_KEYWORD_BYPASS_LENGTH))"

text \<open>The keyword count in the words of the specification: the number of configured
  keywords that occur in the text as a substring, letter case ignored, that is, after
  both have been put in lower case.\<close>

definition occurs_in :: "(js_string \<Rightarrow> js_string) \<Rightarrow> js_string \<Rightarrow> js_string \<Rightarrow> bool" where
  "occurs_in toLowerCase kw text =
     (\<exists>before after. toLowerCase text = before @ toLowerCase kw @ after)"

definition matchedKeywords :: "(js_string \<Rightarrow> js_string) \<Rightarrow> js_string \<Rightarrow> nat" where
  "matchedKeywords toLowerCase text =
     card {kw. kw \<in> set INTRO_KEYWORDS \<and> occurs_in toLowerCase kw text}"

text \<open>On a string whose only capital letters are \<open>A\<close>..\<open>Z\<close> the runtime's
  \<open>toLowerCase\<close> moves the units of these up by 32 and keeps every other unit.\<close>

definition ascii_toLowerCase :: "js_string \<Rightarrow> js_string" where
  "ascii_toLowerCase s = map (\<lambda>u. if 65 \<le> u \<and> u \<le> 90 then u + 32 else u) s"

section \<open>handlers/welcome and handlers/gatekeeper\<close>

text \<open>
  The module-level objects of the handlers (the store, the admin cache, the two cooldown
  maps, the configured chat identifiers) are the fields of one state. A handler returns
  the actions it asked the transport for, in order, and the state it leaves. A reply is
  named by its template and the template's arguments. A handler is synchronous between
  two awaits, and reads the same clock value throughout such a stretch.
\<close>

record tg_user =
  tg_id :: int
  is_bot :: bool
  tg_username :: "string option"
  tg_first_name :: "string option"

datatype message_text = WELCOME_MESSAGE "string option" "int option" | REMINDER_MESSAGE

datatype effect = DeleteMessage | Reply message_text | ReplyThenDeleteAfter message_text int

record bot_state =
  store :: db
  admins :: admin_state
  welcomeCooldowns :: "int CooldownMap"
  reminderCooldowns :: "int CooldownMap"
  mainGroupId :: "int option"
  introChannelId :: "int option"

text \<open>A Telegram user identifier is a positive integer of at most 52 significant bits,
  so it is a JavaScript integer and fits the 64-bit key column of the \<open>users\<close> table.\<close>

definition is_telegram_id :: "int \<Rightarrow> bool" where
  "is_telegram_id i = (0 < i \<and> i < 2 ^ 52)"

text \<open>What tracking the members of a join event means: \<open>upsertUser\<close> is run for each
  listed member, in the order of the event, and stops at the first error. A row \<open>r\<close> is
  the upserted state of the user \<open>i\<close> whose row before the event was \<open>old\<close> when it was
  written at \<open>now\<close> and is a fresh unintroduced row if there was none, and has the
  identifier, the introduction status and the join time of the old row if there was one.\<close>

fun upsert_all :: "int \<Rightarrow> tg_user list \<Rightarrow> db \<Rightarrow> error + db" where
  "upsert_all now [] d = Inr d"
| "upsert_all now (m # ms) d =
     (case upsertUser now (tg_id m) (tg_username m) (tg_first_name m) d of
        Inl e \<Rightarrow> Inl e
      | Inr d' \<Rightarrow> upsert_all now ms d')"

definition upserted :: "int \<Rightarrow> int \<Rightarrow> user_row option \<Rightarrow> user_row \<Rightarrow> bool" where
  "upserted now i old r =
     (updated_at r = now \<and>
      (case old of
         None \<Rightarrow> user_id r = i \<and> \<not> introduced r \<and> introduced_at r = None
                  \<and> intro_msg_id r = None \<and> joined_at r = now
       | Some r0 \<Rightarrow> user_id r = user_id r0 \<and> introduced r = introduced r0
                  \<and> introduced_at r = introduced_at r0 \<and> intro_msg_id r = intro_msg_id r0
                  \<and> joined_at r = joined_at r0))"

text \<open>The state when the modules are loaded and the chat identifiers are configured: an
  empty store, an empty admin cache, two empty cooldown maps without a size limit.\<close>

definition startup :: "int option \<Rightarrow> int option \<Rightarrow> bot_state" where
  "startup main intro =
     \<lparr>store = empty_db,
      admins = \<lparr>cache = [], resolver_calls = []\<rparr>,
      welcomeCooldowns = new_CooldownMap WELCOME_COOLDOWN_MS 0,
      reminderCooldowns = new_CooldownMap REMINDER_COOLDOWN_MS 0,
      mainGroupId = main,
      introChannelId = intro\<rparr>"

record join_event =
  join_chat_id :: int
  new_chat_members :: "tg_user list"

fun welcome_members ::
  "int \<Rightarrow> int \<Rightarrow> bool \<Rightarrow> tg_user list \<Rightarrow> effect list \<times> bot_state \<Rightarrow> error + effect list \<times> bot_state" where
  "welcome_members now chat isMassJoin [] (sent, st) = Inr (sent, st)"
| "welcome_members now chat isMassJoin (member # rest) (sent, st) =
     (if is_bot member then welcome_members now chat isMassJoin rest (sent, st)
      else case upsertUser now (tg_id member) (tg_username member) (tg_first_name member) (store st) of
             Inl e \<Rightarrow> Inl e
           | Inr d \<Rightarrow>
               (let st1 = st\<lparr>store := d\<rparr>
                in if isMassJoin then welcome_members now chat isMassJoin rest (sent, st1)
                   else if fst (isLimited now chat (welcomeCooldowns st1))
                   then welcome_members now chat isMassJoin rest (sent, st1)
                   else welcome_members now chat isMassJoin rest
                          (sent @ [Reply (WELCOME_MESSAGE (tg_first_name member) (introChannelId st1))],
                           st1\<lparr>welcomeCooldowns := touch now chat (welcomeCooldowns st1)\<rparr>)))"

definition welcome_on_new_chat_members :: "int \<Rightarrow> join_event \<Rightarrow> bot_state \<Rightarrow> error + effect list \<times> bot_state" where
  "welcome_on_new_chat_members now ev st =
     (if Some (join_chat_id ev) \<noteq> mainGroupId st then Inr ([], st)
      else (let members = new_chat_members ev;
                isMassJoin = length members > MAX_NEW_MEMBERS_PER_EVENT
            in welcome_members now (join_chat_id ev) isMassJoin members ([], st)))"

record message_event =
  chat_id :: int
  sender :: "tg_user option"

text \<open>The result of the gatekeeper: whether it called \<open>next()\<close>, the actions, the state.\<close>

record handled =
  passed_on :: bool
  effects :: "effect list"
  state :: bot_state

definition gatekeeper_on_message ::
  "telegram \<Rightarrow> int \<Rightarrow> int \<Rightarrow> message_event \<Rightarrow> bot_state \<Rightarrow> error + handled" where
  "gatekeeper_on_message tg now later ev st =
     (if Some (chat_id ev) \<noteq> mainGroupId st
      then Inr \<lparr>passed_on = True, effects = [], state = st\<rparr>
      else case sender ev of
        None \<Rightarrow> Inr \<lparr>passed_on = True, effects = [], state = st\<rparr>
      | Some u \<Rightarrow>
          if is_bot u then Inr \<lparr>passed_on = True, effects = [], state = st\<rparr>
          else
            (let (adm, a) = isAdmin tg now later (JSInteger (chat_id ev)) (JSInteger (tg_id u)) (admins st);
                 st1 = st\<lparr>admins := a\<rparr>
             in if adm then Inr \<lparr>passed_on = True, effects = [], state = st1\<rparr>
                else case getUser (tg_id u) (store st1) of
                  Inl e \<Rightarrow> Inl e
                | Inr None \<Rightarrow> Inr \<lparr>passed_on = True, effects = [], state = st1\<rparr>
                | Inr (Some row) \<Rightarrow>
                    if introduced row then Inr \<lparr>passed_on = True, effects = [], state = st1\<rparr>
                    else if fst (isLimited later (tg_id u) (reminderCooldowns st1))
                    then Inr \<lparr>passed_on = False, effects = [DeleteMessage], state = st1\<rparr>
                    else Inr \<lparr>passed_on = False,
                              effects = [DeleteMessage,
                                         ReplyThenDeleteAfter REMINDER_MESSAGE REMINDER_AUTO_DELETE_MS],
                              state = st1\<lparr>reminderCooldowns :=
                                        touch later (tg_id u) (reminderCooldowns st1)\<rparr>\<rparr>))"

section \<open>Facts about the ordered map\<close>

lemma map_get_set_same: "map_get (map_set k v m) k = Some v"
  by (induction m) (auto simp: map_get_def)

lemma map_get_set_other: "k' \<noteq> k \<Longrightarrow> map_get (map_set k v m) k' = map_get m k'"
  by (induction m) (auto simp: map_get_def)

lemma keys_map_set:
  "map fst (map_set k v m) = (if k \<in> fst ` set m then map fst m else map fst m @ [k])"
  by (induction m) auto

lemma wf_map_set: "wf_map m \<Longrightarrow> wf_map (map_set k v m)"
  by (simp add: wf_map_def keys_map_set)

lemma wf_map_delete: "wf_map m \<Longrightarrow> wf_map (map_delete k m)"
  by (simp add: wf_map_def map_delete_def distinct_map_filter)

lemma length_map_set:
  "length (map_set k v m) = (if k \<in> fst ` set m then length m else Suc (length m))"
  by (induction m) auto

section \<open>The purge\<close>

lemma purge_loop_filter:
  "purge_loop now w xs m =
     filter (\<lambda>p. fst p \<notin> fst ` {q \<in> set xs. now - anchor (snd q) > w}) m"
proof (induction xs arbitrary: m)
  case Nil
  then show ?case by simp
next
  case (Cons x xs)
  let ?E = "\<lambda>ys. fst ` {q \<in> set ys. now - anchor (snd q) > w}"
  show ?case
  proof (cases "now - anchor (snd x) > w")
    case True
    have E: "?E (x # xs) = insert (fst x) (?E xs)"
      using True by auto
    have "purge_loop now w (x # xs) m = purge_loop now w xs (map_delete (fst x) m)"
      using True by simp
    also have "\<dots> = filter (\<lambda>p. fst p \<notin> ?E xs) (filter (\<lambda>p. fst p \<noteq> fst x) m)"
      by (simp only: Cons.IH map_delete_def)
    also have "\<dots> = filter (\<lambda>p. fst p \<notin> ?E (x # xs)) m"
      unfolding E filter_filter by (rule filter_cong) auto
    finally show ?thesis .
  next
    case False
    have E: "?E (x # xs) = ?E xs"
      using False by auto
    have "purge_loop now w (x # xs) m = purge_loop now w xs m"
      using False by simp
    then show ?thesis
      unfolding E by (simp only: Cons.IH)
  qed
qed

lemma wf_map_same_key:
  "wf_map m \<Longrightarrow> (k, v) \<in> set m \<Longrightarrow> (k, v') \<in> set m \<Longrightarrow> v = v'"
  unfolding wf_map_def by (rule eq_key_imp_eq_value)

lemma purge_is_filter:
  assumes "wf_map (cmap c)"
  shows "cmap (purge now c) = filter (\<lambda>p. \<not> now - anchor (snd p) > windowMs c) (cmap c)"
proof -
  have "filter (\<lambda>p. fst p \<notin> fst ` {q \<in> set (cmap c). now - anchor (snd q) > windowMs c}) (cmap c)
        = filter (\<lambda>p. \<not> now - anchor (snd p) > windowMs c) (cmap c)"
  proof (rule filter_cong [OF refl])
    fix p assume p: "p \<in> set (cmap c)"
    show "(fst p \<notin> fst ` {q \<in> set (cmap c). now - anchor (snd q) > windowMs c})
            = (\<not> now - anchor (snd p) > windowMs c)"
    proof
      assume "fst p \<notin> fst ` {q \<in> set (cmap c). now - anchor (snd q) > windowMs c}"
      with p show "\<not> now - anchor (snd p) > windowMs c" by blast
    next
      assume keep: "\<not> now - anchor (snd p) > windowMs c"
      show "fst p \<notin> fst ` {q \<in> set (cmap c). now - anchor (snd q) > windowMs c}"
      proof
        assume "fst p \<in> fst ` {q \<in> set (cmap c). now - anchor (snd q) > windowMs c}"
        then obtain q where q: "q \<in> set (cmap c)" "now - anchor (snd q) > windowMs c" "fst q = fst p"
          by auto
        have "(fst p, snd p) \<in> set (cmap c)" "(fst p, snd q) \<in> set (cmap c)"
          using p q by (simp, metis prod.collapse)
        then have "snd p = snd q"
          by (rule wf_map_same_key [OF assms])
        with keep q show False by simp
      qed
    qed
  qed
  then show ?thesis
    by (simp add: purge_def purge_loop_filter)
qed

lemma anchor_cases:
  "(\<not> now - anchor (snd p) > w) =
   (case p of (k, e) \<Rightarrow> (case e of Timestamp ts \<Rightarrow> now - ts \<le> w | Counter n fa \<Rightarrow> now - fa \<le> w))"
  by (cases p, cases "snd p") auto

text \<open>
  Claim C5. On a map with unique keys the purge keeps, in their order, exactly the entries
  whose anchor is at most \<open>windowMs\<close> old, and removes every other entry. The anchor of a
  timestamp entry is the stored value, the anchor of a counter entry is \<open>firstAttempt\<close>.
  The window and the size limit are untouched.
\<close>

theorem purge_removes_exactly_expired:
  assumes "wf_map (cmap c)"
  shows "cmap (purge now c) =
           filter (\<lambda>(k, e). case e of
                      Timestamp ts \<Rightarrow> now - ts \<le> windowMs c
                    | Counter n fa \<Rightarrow> now - fa \<le> windowMs c) (cmap c)
         \<and> windowMs (purge now c) = windowMs c \<and> maxSize (purge now c) = maxSize c"
proof -
  have "cmap (purge now c) = filter (\<lambda>p. \<not> now - anchor (snd p) > windowMs c) (cmap c)"
    by (rule purge_is_filter [OF assms])
  then have "cmap (purge now c) =
           filter (\<lambda>(k, e). case e of
                      Timestamp ts \<Rightarrow> now - ts \<le> windowMs c
                    | Counter n fa \<Rightarrow> now - fa \<le> windowMs c) (cmap c)"
    by (simp only: anchor_cases)
  moreover have "windowMs (purge now c) = windowMs c" "maxSize (purge now c) = maxSize c"
    by (simp_all add: purge_def)
  ultimately show ?thesis by blast
qed

theorem purge_removes_exactly_expired_witness:
  "cmap (purge 5000 \<lparr>cmap = [(''a'', Timestamp 1000), (''b'', Counter 3 3999),
                              (''c'', Counter 1 4000), (''d'', Timestamp 4500)],
                      windowMs = 1000, maxSize = 0\<rparr>)
     = [(''c'', Counter 1 4000), (''d'', Timestamp 4500)]"
proof -
  have wf: "wf_map (cmap \<lparr>cmap = [(''a'', Timestamp 1000), (''b'', Counter 3 3999),
                              (''c'', Counter 1 4000), (''d'', Timestamp 4500)],
                      windowMs = 1000, maxSize = 0::int\<rparr>)"
    by (simp add: wf_map_def)
  show ?thesis
    using purge_removes_exactly_expired [OF wf, of 5000] by simp
qed


section \<open>The timestamp mode\<close>

lemma touch_get: "map_get (cmap (touch t key c)) key = Some (Timestamp t)"
  by (simp add: touch_def Let_def map_get_set_same)

text \<open>
  Claim C7. After \<open>touch\<close> at time \<open>t\<close>, \<open>isLimited\<close> at time \<open>t'\<close> answers true exactly
  when less than \<open>windowMs\<close> has passed since \<open>t\<close>: true at once when the window is
  positive, false once the window or more has passed. For an absent key it answers
  false. It hands back the cache it was given.
\<close>

theorem touch_then_isLimited:
  "fst (isLimited t' key (touch t key c)) = (t' - t < windowMs c)
   \<and> (0 < windowMs c \<longrightarrow> fst (isLimited t key (touch t key c)))
   \<and> (map_get (cmap c) key = None \<longrightarrow> \<not> fst (isLimited now key c))
   \<and> snd (isLimited now key c) = c"
proof -
  have w: "windowMs (touch t key c) = windowMs c"
    by (simp add: touch_def Let_def)
  have a: "fst (isLimited t' key (touch t key c)) = (t' - t < windowMs c)" for t'
    by (simp add: isLimited_def touch_get w)
  have b: "map_get (cmap c) key = None \<longrightarrow> \<not> fst (isLimited now key c)"
    by (simp add: isLimited_def)
  have c: "snd (isLimited now key c) = c"
    by (simp add: isLimited_def split: option.splits entry.splits)
  from a [of t'] a [of t] b c show ?thesis by simp
qed

theorem touch_then_isLimited_witness:
  "fst (isLimited 1999 ''key'' (touch 1000 ''key'' (new_CooldownMap 1000 0)))
   \<and> \<not> fst (isLimited 2001 ''key'' (touch 1000 ''key'' (new_CooldownMap 1000 0)))
   \<and> fst (isLimited 1000 ''key'' (touch 1000 ''key'' (new_CooldownMap 1000 0)))
   \<and> \<not> fst (isLimited 1000 ''key'' (new_CooldownMap 1000 0))"
  using touch_then_isLimited [of 1999 "''key''" 1000 "new_CooldownMap 1000 0" 1000]
        touch_then_isLimited [of 2001 "''key''" 1000 "new_CooldownMap 1000 0" 1000]
  by (simp add: new_CooldownMap_def map_get_def)

section \<open>The counter mode\<close>

lemma increment_fresh:
  assumes "map_get (cmap c) key = None \<or> (\<exists>ts. map_get (cmap c) key = Some (Timestamp ts))
           \<or> (\<exists>n fa. map_get (cmap c) key = Some (Counter n fa) \<and> now - fa > windowMs c)"
  shows "increment now key mx c = (False, c\<lparr>cmap := map_set key (Counter 1 now) (cmap c)\<rparr>)"
  using assms by (auto simp: increment_def Let_def)

lemma increment_within:
  assumes "map_get (cmap c) key = Some (Counter n fa)" "now - fa \<le> windowMs c"
  shows "increment now key mx c = (n + 1 > mx, c\<lparr>cmap := map_set key (Counter (n + 1) fa) (cmap c)\<rparr>)"
  using assms by (simp add: increment_def Let_def)

lemma current_count_set:
  "current_count key (c\<lparr>cmap := map_set key (Counter n fa) m\<rparr>) = n"
  by (simp add: current_count_def map_get_set_same)

lemma increment_result_iff:
  assumes "1 \<le> mx"
  shows "fst (increment now key mx c) = (current_count key (snd (increment now key mx c)) > mx)"
proof (cases "\<exists>n fa. map_get (cmap c) key = Some (Counter n fa) \<and> now - fa \<le> windowMs c")
  case True
  then obtain n fa where "map_get (cmap c) key = Some (Counter n fa)" "now - fa \<le> windowMs c"
    by blast
  then show ?thesis
    by (simp add: increment_within current_count_set)
next
  case False
  then have "map_get (cmap c) key = None \<or> (\<exists>ts. map_get (cmap c) key = Some (Timestamp ts))
           \<or> (\<exists>n fa. map_get (cmap c) key = Some (Counter n fa) \<and> now - fa > windowMs c)"
    by (cases "map_get (cmap c) key") (auto intro: entry.exhaust simp: not_le)
  then show ?thesis
    using assms by (simp add: increment_fresh current_count_set)
qed

lemma increment_calls_within:
  assumes "map_get (cmap c) key = Some (Counter n fa)" "\<forall>t \<in> set ts. t - fa \<le> windowMs c"
  shows "fst (increment_calls ts key mx c) = map (\<lambda>i. n + int i + 1 > mx) [0..<length ts]"
  using assms
proof (induction ts arbitrary: c n)
  case Nil
  then show ?case by simp
next
  case (Cons t ts)
  let ?c1 = "c\<lparr>cmap := map_set key (Counter (n + 1) fa) (cmap c)\<rparr>"
  have step: "increment t key mx c = (n + 1 > mx, ?c1)"
    using Cons.prems by (simp add: increment_within)
  have get1: "map_get (cmap ?c1) key = Some (Counter (n + 1) fa)"
    by (simp add: map_get_set_same)
  have rest: "fst (increment_calls ts key mx ?c1)
                = map (\<lambda>i. (n + 1) + int i + 1 > mx) [0..<length ts]"
    using Cons.prems by (intro Cons.IH [OF get1]) simp
  have shift: "map (\<lambda>i. n + int i + 1 > mx) [0..<length (t # ts)]
          = (n + 1 > mx) # map (\<lambda>i. (n + 1) + int i + 1 > mx) [0..<length ts]"
    by (auto simp add: upt_conv_Cons map_Suc_upt [symmetric] simp del: upt_Suc)
  show ?case
    unfolding shift using step rest by (simp add: split_beta)
qed

text \<open>
  Claim C1, for a limit of at least one. \<open>increment\<close> answers true exactly when the count
  recorded for the key, after this attempt, is above the limit. From an absent key, calls
  at clock values that stay within \<open>windowMs\<close> of the first one answer false for the
  first \<open>mx\<close> calls and true from call \<open>mx + 1\<close> on: call number \<open>i + 1\<close> answers
  \<open>i + 1 > mx\<close>. When more than \<open>windowMs\<close> has passed since \<open>firstAttempt\<close>, the call
  answers false and stores a count of one with the window starting now.
\<close>

theorem increment_limit:
  assumes "1 \<le> mx"
  shows "fst (increment now key mx c) = (current_count key (snd (increment now key mx c)) > mx)
   \<and> (map_get (cmap c) key = None \<and> (\<forall>t \<in> set ts. t - now \<le> windowMs c) \<longrightarrow>
        fst (increment_calls (now # ts) key mx c)
          = map (\<lambda>i. int i + 1 > mx) [0..<Suc (length ts)])
   \<and> (map_get (cmap c) key = Some (Counter n fa) \<and> now - fa > windowMs c \<longrightarrow>
        fst (increment now key mx c) = False
        \<and> map_get (cmap (snd (increment now key mx c))) key = Some (Counter 1 now))"
proof (intro conjI impI)
  show "fst (increment now key mx c) = (current_count key (snd (increment now key mx c)) > mx)"
    by (rule increment_result_iff [OF assms])
next
  assume a: "map_get (cmap c) key = None \<and> (\<forall>t \<in> set ts. t - now \<le> windowMs c)"
  let ?c1 = "c\<lparr>cmap := map_set key (Counter 1 now) (cmap c)\<rparr>"
  have first: "increment now key mx c = (False, ?c1)"
    using a by (simp add: increment_fresh)
  have get1: "map_get (cmap ?c1) key = Some (Counter 1 now)"
    by (simp add: map_get_set_same)
  have rest: "fst (increment_calls ts key mx ?c1) = map (\<lambda>i. 1 + int i + 1 > mx) [0..<length ts]"
    using a by (intro increment_calls_within [OF get1]) simp
  have shift: "map (\<lambda>i. int i + 1 > mx) [0..<Suc (length ts)]
                 = False # map (\<lambda>i. 1 + int i + 1 > mx) [0..<length ts]"
    using assms by (auto simp add: upt_conv_Cons map_Suc_upt [symmetric] simp del: upt_Suc)
  show "fst (increment_calls (now # ts) key mx c) = map (\<lambda>i. int i + 1 > mx) [0..<Suc (length ts)]"
    unfolding shift using first rest by (simp add: split_beta)
next
  assume a: "map_get (cmap c) key = Some (Counter n fa) \<and> now - fa > windowMs c"
  then have first: "increment now key mx c = (False, c\<lparr>cmap := map_set key (Counter 1 now) (cmap c)\<rparr>)"
    by (intro increment_fresh) blast
  show "fst (increment now key mx c) = False"
    by (simp add: first)
  show "map_get (cmap (snd (increment now key mx c))) key = Some (Counter 1 now)"
    by (simp add: first map_get_set_same)
qed

theorem increment_limit_witness:
  "fst (increment_calls [0, 10, 20, 30] ''key'' 2 (new_CooldownMap 1000 0)) = [False, False, True, True]
   \<and> fst (increment 1001 ''key'' 1 \<lparr>cmap = [(''key'', Counter 2 0)], windowMs = 1000, maxSize = 0\<rparr>) = False
   \<and> map_get (cmap (snd (increment 1001 ''key'' 1 \<lparr>cmap = [(''key'', Counter 2 0)], windowMs = 1000, maxSize = 0\<rparr>))) ''key''
        = Some (Counter 1 1001)"
proof -
  have mx: "(1::int) \<le> 2" "(1::int) \<le> 1" by simp_all
  have "map_get (cmap (new_CooldownMap 1000 0)) ''key'' = None
        \<and> (\<forall>t \<in> set [10, 20, 30]. t - 0 \<le> windowMs (new_CooldownMap 1000 0 :: string CooldownMap))"
    by (simp add: new_CooldownMap_def map_get_def)
  with increment_limit [OF mx(1), of 0 "''key''" "new_CooldownMap 1000 0" "[10, 20, 30]"]
  have "fst (increment_calls [0, 10, 20, 30] ''key'' 2 (new_CooldownMap 1000 0))
          = map (\<lambda>i. int i + 1 > 2) [0..<Suc (length [10, 20, 30::int])]"
    by blast
  then have a: "fst (increment_calls [0, 10, 20, 30] ''key'' 2 (new_CooldownMap 1000 0))
                  = [False, False, True, True]"
    by (simp add: upt_conv_Cons)
  let ?c = "\<lparr>cmap = [(''key'', Counter 2 0)], windowMs = 1000, maxSize = 0\<rparr> :: string CooldownMap"
  have "map_get (cmap ?c) ''key'' = Some (Counter 2 0) \<and> 1001 - 0 > windowMs ?c"
    by (simp add: map_get_def)
  with increment_limit [OF mx(2), of 1001 "''key''" ?c "[]" 2 0]
  have b: "fst (increment 1001 ''key'' 1 ?c) = False
        \<and> map_get (cmap (snd (increment 1001 ''key'' 1 ?c))) ''key'' = Some (Counter 1 1001)"
    by blast
  from a b show ?thesis by blast
qed

text \<open>
  With a limit of zero the claim fails as stated: the first call records a count of one,
  which is above the limit, and answers false.
\<close>

theorem increment_zero_max_counterexample:
  "\<not> (fst (increment 0 ''key'' 0 (new_CooldownMap 1000 0))
        = (current_count ''key'' (snd (increment 0 ''key'' 0 (new_CooldownMap 1000 0))) > 0))"
  by (simp add: increment_def new_CooldownMap_def map_get_def current_count_def)

section \<open>The size limit\<close>

lemma map_set_new: "k \<notin> fst ` set m \<Longrightarrow> map_set k v m = m @ [(k, v)]"
  by (induction m) auto

lemma delete_oldest_Cons:
  assumes "wf_map (p # rest)"
  shows "delete_oldest (p # rest) = rest"
proof -
  have "fst p \<notin> fst ` set rest"
    using assms by (simp add: wf_map_def)
  then have "\<forall>q \<in> set rest. fst q \<noteq> fst p"
    by (metis image_eqI)
  then have "filter (\<lambda>q. fst q \<noteq> fst p) rest = rest"
    by (simp add: filter_id_conv)
  then show ?thesis
    by (simp add: delete_oldest_def map_delete_def)
qed

lemma length_delete_oldest:
  "wf_map m \<Longrightarrow> m \<noteq> [] \<Longrightarrow> Suc (length (delete_oldest m)) = length m"
  by (cases m) (simp_all add: delete_oldest_Cons)

text \<open>
  \<open>touch\<close> keeps a map within a positive \<open>maxSize\<close>, and a new key touched at capacity
  replaces exactly the entry inserted first.
\<close>

lemma touch_keeps_size_bound:
  assumes "wf_map (cmap c)" "0 < maxSize c" "map_size (cmap c) \<le> maxSize c"
  shows "map_size (cmap (touch now key c)) \<le> maxSize c \<and> wf_map (cmap (touch now key c))
         \<and> maxSize (touch now key c) = maxSize c"
proof (cases "map_size (cmap c) \<ge> maxSize c")
  case True
  then have ne: "cmap c \<noteq> []"
    using assms(2) by (auto simp: map_size_def)
  have cm: "cmap (touch now key c) = map_set key (Timestamp now) (delete_oldest (cmap c))"
    using True assms(2) by (simp add: touch_def)
  have "length (map_set key (Timestamp now) (delete_oldest (cmap c))) \<le> Suc (length (delete_oldest (cmap c)))"
    by (simp add: length_map_set)
  also have "\<dots> = length (cmap c)"
    by (rule length_delete_oldest [OF assms(1) ne])
  finally have "map_size (cmap (touch now key c)) \<le> maxSize c"
    using assms(3) by (simp add: cm map_size_def)
  moreover have "wf_map (delete_oldest (cmap c))"
    using assms(1) by (auto simp: delete_oldest_def wf_map_delete split: list.splits)
  then have "wf_map (cmap (touch now key c))"
    by (simp add: cm wf_map_set)
  moreover have "maxSize (touch now key c) = maxSize c"
    by (simp add: touch_def Let_def)
  ultimately show ?thesis by blast
next
  case False
  then have cm: "cmap (touch now key c) = map_set key (Timestamp now) (cmap c)"
    by (simp add: touch_def)
  have "length (map_set key (Timestamp now) (cmap c)) \<le> Suc (length (cmap c))"
    by (simp add: length_map_set)
  then have "map_size (cmap (touch now key c)) \<le> maxSize c"
    using False by (simp add: cm map_size_def)
  moreover have "wf_map (cmap (touch now key c))"
    using assms(1) by (simp add: cm wf_map_set)
  moreover have "maxSize (touch now key c) = maxSize c"
    by (simp add: touch_def Let_def)
  ultimately show ?thesis by blast
qed

lemma touch_evicts_oldest:
  assumes "wf_map (cmap c)" "0 < maxSize c" "map_size (cmap c) = maxSize c"
    and "cmap c = p # rest" "key \<notin> fst ` set (cmap c)"
  shows "cmap (touch now key c) = rest @ [(key, Timestamp now)]"
proof -
  have "cmap (touch now key c) = map_set key (Timestamp now) (delete_oldest (cmap c))"
    using assms(2,3) by (simp add: touch_def)
  also have "delete_oldest (cmap c) = rest"
    using assms(1,4) by (simp add: delete_oldest_Cons)
  also have "map_set key (Timestamp now) rest = rest @ [(key, Timestamp now)]"
    using assms(4,5) by (intro map_set_new) auto
  finally show ?thesis .
qed

text \<open>
  Claim C2. \<open>increment\<close> inserts without looking at \<open>maxSize\<close>: on a map limited to one
  entry, two increments of different keys leave two entries, where two touches of the
  same keys leave one.
\<close>

theorem increment_ignores_maxSize:
  "map_size (cmap (snd (increment 0 ''b'' 5 (snd (increment 0 ''a'' 5 (new_CooldownMap 60000 1)))))) = 2
   \<and> maxSize (snd (increment 0 ''b'' 5 (snd (increment 0 ''a'' 5 (new_CooldownMap 60000 1))))) = 1
   \<and> map_size (cmap (touch 0 ''b'' (touch 0 ''a'' (new_CooldownMap 60000 1)))) = 1"
  by (simp add: increment_def touch_def new_CooldownMap_def map_get_def map_size_def
        delete_oldest_def map_delete_def)

section \<open>The admin cache\<close>

lemma resolve_failure:
  "tg c u = None \<Longrightarrow>
   resolve tg later c u st = (False, st\<lparr>resolver_calls := resolver_calls st @ [(c, u)]\<rparr>)"
  by (simp add: resolve_def)

lemma resolve_calls:
  "resolver_calls (snd (resolve tg later c u st)) = resolver_calls st @ [(c, u)]"
  by (simp add: resolve_def Let_def split: option.splits)

lemma isAdmin_hit_or_resolve:
  "isAdmin tg now later (JSInteger c) (JSInteger u) st = (r, st') \<Longrightarrow>
   (st' = st \<and> (\<exists>e. map_get (cache st) (c, u) = Some e \<and> now < expires e))
   \<or> ((r, st') = resolve tg later c u st
       \<and> (\<forall>e. map_get (cache st) (c, u) = Some e \<longrightarrow> expires e \<le> now))"
  by (auto simp: isAdmin_def Let_def split: option.splits if_splits)

text \<open>
  Claim C6. When \<open>chatId\<close> or \<open>userId\<close> is not an integer, \<open>isAdmin\<close> answers false and
  leaves the state as it was: no resolver call is logged. When a call did invoke the
  resolver and the resolver failed, the answer is false and the cache is as before; the
  next call for the same pair, the clock not having gone back, invokes the resolver
  again, whatever resolver it is given.
\<close>

theorem isAdmin_rejects_and_failures:
  "(\<not> Number_isInteger chatId \<or> \<not> Number_isInteger userId \<longrightarrow>
      isAdmin tg now later chatId userId st = (False, st))
   \<and> (tg c u = None \<and> isAdmin tg now later (JSInteger c) (JSInteger u) st = (r, st')
        \<and> resolver_calls st' \<noteq> resolver_calls st \<and> now \<le> now2 \<longrightarrow>
      r = False \<and> cache st' = cache st
      \<and> resolver_calls (snd (isAdmin tg2 now2 later2 (JSInteger c) (JSInteger u) st'))
          = resolver_calls st' @ [(c, u)])"
proof (intro conjI impI)
  assume "\<not> Number_isInteger chatId \<or> \<not> Number_isInteger userId"
  then show "isAdmin tg now later chatId userId st = (False, st)"
    by (simp add: isAdmin_def)
next
  assume a: "tg c u = None \<and> isAdmin tg now later (JSInteger c) (JSInteger u) st = (r, st')
        \<and> resolver_calls st' \<noteq> resolver_calls st \<and> now \<le> now2"
  then have res: "(r, st') = resolve tg later c u st"
    and old: "\<forall>e. map_get (cache st) (c, u) = Some e \<longrightarrow> expires e \<le> now"
    using isAdmin_hit_or_resolve [of tg now later c u st r st'] by auto
  have st': "r = False" "st' = st\<lparr>resolver_calls := resolver_calls st @ [(c, u)]\<rparr>"
    using res a by (simp_all add: resolve_failure)
  show "r = False" by (rule st'(1))
  show "cache st' = cache st" by (simp add: st'(2))
  have miss: "\<forall>e. map_get (cache st') (c, u) = Some e \<longrightarrow> \<not> now2 < expires e"
    using old a by (auto simp: st'(2))
  then have "isAdmin tg2 now2 later2 (JSInteger c) (JSInteger u) st' = resolve tg2 later2 c u st'"
    by (auto simp: isAdmin_def Let_def split: option.splits)
  then show "resolver_calls (snd (isAdmin tg2 now2 later2 (JSInteger c) (JSInteger u) st'))
          = resolver_calls st' @ [(c, u)]"
    by (simp add: resolve_calls)
qed

theorem isAdmin_rejects_and_failures_witness:
  "isAdmin (\<lambda>c u. None) 0 0 (JSString ''abc'') (JSInteger 123) \<lparr>cache = [], resolver_calls = []\<rparr>
     = (False, \<lparr>cache = [], resolver_calls = []\<rparr>)
   \<and> isAdmin (\<lambda>c u. None) 0 0 (JSInteger (- 100123)) (JSInteger 456) \<lparr>cache = [], resolver_calls = []\<rparr>
     = (False, \<lparr>cache = [], resolver_calls = [(- 100123, 456)]\<rparr>)
   \<and> resolver_calls (snd (isAdmin (\<lambda>c u. Some ''administrator'') 5 5 (JSInteger (- 100123)) (JSInteger 456)
                              \<lparr>cache = [], resolver_calls = [(- 100123, 456)]\<rparr>))
     = [(- 100123, 456), (- 100123, 456)]"
proof -
  let ?st = "\<lparr>cache = [], resolver_calls = []\<rparr>"
  let ?st' = "\<lparr>cache = [], resolver_calls = [(- 100123, 456)]\<rparr>"
  let ?tg = "(\<lambda>c u. None) :: telegram"
  have bad: "\<not> Number_isInteger (JSString ''abc'') \<or> \<not> Number_isInteger (JSInteger 123)"
    by simp
  have run: "isAdmin ?tg 0 0 (JSInteger (- 100123)) (JSInteger 456) ?st = (False, ?st')"
    by (simp add: isAdmin_def resolve_def map_get_def)
  have hyp: "?tg (- 100123) 456 = None
      \<and> isAdmin ?tg 0 0 (JSInteger (- 100123)) (JSInteger 456) ?st = (False, ?st')
      \<and> resolver_calls ?st' \<noteq> resolver_calls ?st \<and> (0::int) \<le> 5"
    using run by simp
  from bad isAdmin_rejects_and_failures
         [of "JSString ''abc''" "JSInteger 123" ?tg 0 0 ?st "- 100123" 456 False ?st' 5]
  have a: "isAdmin ?tg 0 0 (JSString ''abc'') (JSInteger 123) ?st = (False, ?st)"
    by blast
  from hyp isAdmin_rejects_and_failures
         [of "JSString ''abc''" "JSInteger 123" ?tg 0 0 ?st "- 100123" 456 False ?st' 5
             "\<lambda>c u. Some ''administrator''" 5]
  have b: "resolver_calls (snd (isAdmin (\<lambda>c u. Some ''administrator'') 5 5 (JSInteger (- 100123))
              (JSInteger 456) ?st')) = resolver_calls ?st' @ [(- 100123, 456)]"
    by blast
  from a run b show ?thesis by simp
qed

section \<open>The store\<close>

text \<open>
  Claim C9, as the code has it. The allow-list holds \<open>MAIN_GROUP_ID\<close> and
  \<open>INTRO_CHANNEL_ID\<close>. \<open>setSetting\<close> with any other key fails with the invalid-key error
  before it writes, so the store stays as it was; with a listed key it stores the value.
  \<open>getSetting\<close> checks no key: for every key it answers what is stored, or nothing.
\<close>

theorem setSetting_allow_list:
  "set VALID_SETTING_KEYS = {''MAIN_GROUP_ID'', ''INTRO_CHANNEL_ID''}
   \<and> (key \<notin> set VALID_SETTING_KEYS \<longrightarrow> setSetting key val d = Inl (Invalid_setting_key key))
   \<and> (key \<in> set VALID_SETTING_KEYS \<longrightarrow>
        setSetting key val d = Inr (d\<lparr>settings := (settings d)(key \<mapsto> val)\<rparr>))
   \<and> getSetting key d = Inr (settings d key)"
  by (simp add: setSetting_def getSetting_def VALID_SETTING_KEYS_def)

theorem setSetting_allow_list_witness:
  "setSetting ''INVALID_KEY'' ''val'' empty_db = Inl (Invalid_setting_key ''INVALID_KEY'')
   \<and> setSetting ''MAIN_GROUP_ID'' ''-100111'' empty_db
       = Inr (empty_db\<lparr>settings := (settings empty_db)(''MAIN_GROUP_ID'' \<mapsto> ''-100111'')\<rparr>)"
  using setSetting_allow_list [of "''INVALID_KEY''" "''val''" empty_db]
        setSetting_allow_list [of "''MAIN_GROUP_ID''" "''-100111''" empty_db]
  by simp

text \<open>
  \<open>getSetting\<close> with a key outside the allow-list answers \<open>null\<close>; it does not fail.
\<close>

theorem getSetting_unchecked_counterexample:
  "''INVALID_KEY'' \<notin> set VALID_SETTING_KEYS
   \<and> getSetting ''INVALID_KEY'' empty_db \<noteq> Inl (Invalid_setting_key ''INVALID_KEY'')
   \<and> getSetting ''INVALID_KEY'' empty_db = Inr None"
  by (simp add: getSetting_def VALID_SETTING_KEYS_def empty_db_def)

text \<open>
  Claim C10. For a user that has a row, \<open>upsertUser\<close> with a valid identifier writes the
  truncated \<open>username\<close> and \<open>first_name\<close> and the new \<open>updated_at\<close>, and keeps
  \<open>introduced\<close>, \<open>introduced_at\<close>, \<open>intro_msg_id\<close>, \<open>joined_at\<close> and \<open>user_id\<close> of that
  row, every other row and the settings. With an identifier that is not positive it fails
  before it writes.
\<close>

theorem upsertUser_existing_frame:
  assumes "users d userId = Some r"
  shows "(0 < userId \<longrightarrow>
           (\<exists>d' r'. upsertUser now userId uname fname d = Inr d' \<and> users d' userId = Some r'
              \<and> introduced r' = introduced r \<and> introduced_at r' = introduced_at r
              \<and> intro_msg_id r' = intro_msg_id r \<and> joined_at r' = joined_at r
              \<and> user_id r' = user_id r
              \<and> username r' = truncated 64 uname \<and> first_name r' = truncated 128 fname
              \<and> updated_at r' = now
              \<and> (\<forall>i. i \<noteq> userId \<longrightarrow> users d' i = users d i) \<and> settings d' = settings d))
         \<and> (userId \<le> 0 \<longrightarrow> upsertUser now userId uname fname d = Inl (Invalid_integer ''userId''))"
  using assms by (simp add: upsertUser_def assertSafeInteger_def)

theorem upsertUser_existing_frame_witness:
  "(case upsertUser 90 1 (Some ''new_name'') (Some ''New'')
           \<lparr>users = [1 \<mapsto> \<lparr>user_id = 1, username = Some ''old_name'', first_name = Some ''Old'',
                       introduced = True, introduced_at = Some 50, joined_at = 10,
                       intro_msg_id = Some 42, updated_at = 50\<rparr>],
            settings = Map.empty\<rparr> of
      Inl e \<Rightarrow> False
    | Inr d' \<Rightarrow> map_option introduced (users d' 1) = Some True
               \<and> map_option intro_msg_id (users d' 1) = Some (Some 42)
               \<and> map_option username (users d' 1) = Some (Some ''new_name''))"
proof -
  let ?r = "\<lparr>user_id = 1, username = Some ''old_name'', first_name = Some ''Old'',
                       introduced = True, introduced_at = Some 50, joined_at = 10,
                       intro_msg_id = Some 42, updated_at = 50\<rparr>"
  let ?d = "\<lparr>users = [1 \<mapsto> ?r], settings = Map.empty\<rparr> :: db"
  have "users ?d 1 = Some ?r" by simp
  from upsertUser_existing_frame [OF this, of 90 "Some ''new_name''" "Some ''New''"]
  obtain d' r' where "upsertUser 90 1 (Some ''new_name'') (Some ''New'') ?d = Inr d'"
    "users d' 1 = Some r'" "introduced r' = True" "intro_msg_id r' = Some 42"
    "username r' = truncated 64 (Some ''new_name'')"
    by auto
  then show ?thesis by (simp add: truncated_def)
qed

section \<open>The welcome handler\<close>

lemma upsertUser_row:
  assumes "0 < i"
  shows "\<exists>d1 r1. upsertUser now i un fn d = Inr d1 \<and> users d1 = (users d)(i \<mapsto> r1)
           \<and> settings d1 = settings d \<and> upserted now i (users d i) r1
           \<and> username r1 = truncated 64 un \<and> first_name r1 = truncated 128 fn"
proof (cases "users d i")
  case None
  let ?r = "\<lparr>user_id = i, username = truncated 64 un, first_name = truncated 128 fn,
             introduced = False, introduced_at = None, joined_at = now,
             intro_msg_id = None, updated_at = now\<rparr>"
  have "upsertUser now i un fn d = Inr (d\<lparr>users := (users d)(i \<mapsto> ?r)\<rparr>)"
    using assms None by (simp add: upsertUser_def assertSafeInteger_def)
  then show ?thesis
    using None
    by (intro exI [of _ "d\<lparr>users := (users d)(i \<mapsto> ?r)\<rparr>"] exI [of _ ?r])
       (simp add: upserted_def)
next
  case (Some r0)
  let ?r = "r0\<lparr>username := truncated 64 un, first_name := truncated 128 fn, updated_at := now\<rparr>"
  have "upsertUser now i un fn d = Inr (d\<lparr>users := (users d)(i \<mapsto> ?r)\<rparr>)"
    using assms Some by (simp add: upsertUser_def assertSafeInteger_def)
  then show ?thesis
    using Some
    by (intro exI [of _ "d\<lparr>users := (users d)(i \<mapsto> ?r)\<rparr>"] exI [of _ ?r])
       (simp add: upserted_def)
qed

lemma upserted_twice:
  "upserted now i old r1 \<Longrightarrow> upserted now i (Some r1) r \<Longrightarrow> upserted now i old r"
  by (cases old) (simp_all add: upserted_def)

lemma upsert_all_rows:
  assumes "\<forall>m \<in> set ms. 0 < tg_id m"
  shows "\<exists>d'. upsert_all now ms d = Inr d' \<and> settings d' = settings d
           \<and> (\<forall>i. i \<notin> tg_id ` set ms \<longrightarrow> users d' i = users d i)
           \<and> (\<forall>i \<in> tg_id ` set ms. \<exists>r. users d' i = Some r \<and> upserted now i (users d i) r
                 \<and> (\<exists>m \<in> set ms. tg_id m = i \<and> username r = truncated 64 (tg_username m)
                        \<and> first_name r = truncated 128 (tg_first_name m)))"
  using assms
proof (induction ms arbitrary: d)
  case Nil
  then show ?case by simp
next
  case (Cons m ms)
  have pos: "0 < tg_id m" using Cons.prems by simp
  from upsertUser_row [OF pos, of now "tg_username m" "tg_first_name m" d] obtain d1 r1 where
    up: "upsertUser now (tg_id m) (tg_username m) (tg_first_name m) d = Inr d1"
    and u1: "users d1 = (users d)(tg_id m \<mapsto> r1)"
    and s1: "settings d1 = settings d"
    and k1: "upserted now (tg_id m) (users d (tg_id m)) r1"
    and n1: "username r1 = truncated 64 (tg_username m)" "first_name r1 = truncated 128 (tg_first_name m)"
    by blast
  from Cons.IH [of d1] Cons.prems obtain d' where
    run: "upsert_all now ms d1 = Inr d'"
    and s': "settings d' = settings d1"
    and other: "\<forall>i. i \<notin> tg_id ` set ms \<longrightarrow> users d' i = users d1 i"
    and rows: "\<forall>i \<in> tg_id ` set ms. \<exists>r. users d' i = Some r \<and> upserted now i (users d1 i) r
                 \<and> (\<exists>m \<in> set ms. tg_id m = i \<and> username r = truncated 64 (tg_username m)
                        \<and> first_name r = truncated 128 (tg_first_name m))"
    by auto
  have a: "upsert_all now (m # ms) d = Inr d'"
    using up run by simp
  have b: "settings d' = settings d"
    using s' s1 by simp
  have c: "\<forall>i. i \<notin> tg_id ` set (m # ms) \<longrightarrow> users d' i = users d i"
    using other u1 by simp
  have e: "\<forall>i \<in> tg_id ` set (m # ms). \<exists>r. users d' i = Some r \<and> upserted now i (users d i) r
                 \<and> (\<exists>x \<in> set (m # ms). tg_id x = i \<and> username r = truncated 64 (tg_username x)
                        \<and> first_name r = truncated 128 (tg_first_name x))"
  proof
    fix i assume i: "i \<in> tg_id ` set (m # ms)"
    show "\<exists>r. users d' i = Some r \<and> upserted now i (users d i) r
                 \<and> (\<exists>x \<in> set (m # ms). tg_id x = i \<and> username r = truncated 64 (tg_username x)
                        \<and> first_name r = truncated 128 (tg_first_name x))"
    proof (cases "i \<in> tg_id ` set ms")
      case True
      with rows obtain r x where r: "users d' i = Some r" "upserted now i (users d1 i) r"
        "x \<in> set ms" "tg_id x = i" "username r = truncated 64 (tg_username x)"
        "first_name r = truncated 128 (tg_first_name x)"
        by blast
      have "upserted now i (users d i) r"
      proof (cases "i = tg_id m")
        case True
        then have "upserted now i (Some r1) r" using r(2) u1 by simp
        with k1 True show ?thesis by (simp add: upserted_twice)
      next
        case False
        then show ?thesis using r(2) u1 by simp
      qed
      with r show ?thesis by auto
    next
      case False
      with i have im: "i = tg_id m" by simp
      have "users d' i = Some r1"
        using False other u1 im by simp
      with k1 n1 im show ?thesis by auto
    qed
  qed
  from a b c e show ?case by blast
qed

lemma welcome_members_mass_join:
  "welcome_members now chat True ms (sent, st)
     = map_sum id (\<lambda>d'. (sent, st\<lparr>store := d'\<rparr>))
         (upsert_all now (filter (\<lambda>m. \<not> is_bot m) ms) (store st))"
proof (induction ms arbitrary: st)
  case Nil
  then show ?case by simp
next
  case (Cons m ms)
  show ?case
  proof (cases "is_bot m")
    case True
    then show ?thesis by (simp add: Cons.IH)
  next
    case False
    show ?thesis
    proof (cases "upsertUser now (tg_id m) (tg_username m) (tg_first_name m) (store st)")
      case (Inl e)
      then show ?thesis using False by simp
    next
      case (Inr d)
      then show ?thesis using False by (simp add: Cons.IH)
    qed
  qed
qed

text \<open>
  Claim C8. A join event in the main group with more members than
  \<open>MAX_NEW_MEMBERS_PER_EVENT\<close>, whose members that are not bots carry Telegram user
  identifiers. The handler sends nothing and changes nothing but the store, and the store
  it leaves is the one obtained by running \<open>upsertUser\<close> for every member that is not a
  bot, in order. So every such member has a row afterwards: a fresh unintroduced row if
  there was none, the old row with its introduction status and join time kept if there
  was one, in both cases written now with the truncated names of a member of the event
  with that identifier. The rows of all other users and the settings are as before.
\<close>

theorem mass_join_tracks_without_welcome:
  assumes "mainGroupId st = Some (join_chat_id ev)"
    and "length (new_chat_members ev) > MAX_NEW_MEMBERS_PER_EVENT"
    and "\<forall>m \<in> set (new_chat_members ev). \<not> is_bot m \<longrightarrow> is_telegram_id (tg_id m)"
  shows "\<exists>d'. welcome_on_new_chat_members now ev st = Inr ([], st\<lparr>store := d'\<rparr>)
           \<and> upsert_all now (filter (\<lambda>m. \<not> is_bot m) (new_chat_members ev)) (store st) = Inr d'
           \<and> (\<forall>m \<in> set (new_chat_members ev). \<not> is_bot m \<longrightarrow>
                 (\<exists>r. users d' (tg_id m) = Some r
                    \<and> upserted now (tg_id m) (users (store st) (tg_id m)) r
                    \<and> (\<exists>x \<in> set (new_chat_members ev). \<not> is_bot x \<and> tg_id x = tg_id m
                          \<and> username r = truncated 64 (tg_username x)
                          \<and> first_name r = truncated 128 (tg_first_name x))))
           \<and> (\<forall>i. i \<notin> set (map tg_id (filter (\<lambda>m. \<not> is_bot m) (new_chat_members ev))) \<longrightarrow>
                 users d' i = users (store st) i)
           \<and> settings d' = settings (store st)"
proof -
  let ?ms = "filter (\<lambda>m. \<not> is_bot m) (new_chat_members ev)"
  have pos: "\<forall>m \<in> set ?ms. 0 < tg_id m"
    using assms(3) by (simp add: is_telegram_id_def)
  from upsert_all_rows [OF pos, of now "store st"] obtain d' where
    run: "upsert_all now ?ms (store st) = Inr d'"
    and s': "settings d' = settings (store st)"
    and other: "\<forall>i. i \<notin> tg_id ` set ?ms \<longrightarrow> users d' i = users (store st) i"
    and rows: "\<forall>i \<in> tg_id ` set ?ms. \<exists>r. users d' i = Some r
                 \<and> upserted now i (users (store st) i) r
                 \<and> (\<exists>m \<in> set ?ms. tg_id m = i \<and> username r = truncated 64 (tg_username m)
                        \<and> first_name r = truncated 128 (tg_first_name m))"
    by blast
  have "welcome_on_new_chat_members now ev st
          = welcome_members now (join_chat_id ev) True (new_chat_members ev) ([], st)"
    using assms(1,2) by (simp add: welcome_on_new_chat_members_def)
  then have a: "welcome_on_new_chat_members now ev st = Inr ([], st\<lparr>store := d'\<rparr>)"
    by (simp add: welcome_members_mass_join run)
  have b: "\<forall>m \<in> set (new_chat_members ev). \<not> is_bot m \<longrightarrow>
                 (\<exists>r. users d' (tg_id m) = Some r
                    \<and> upserted now (tg_id m) (users (store st) (tg_id m)) r
                    \<and> (\<exists>x \<in> set (new_chat_members ev). \<not> is_bot x \<and> tg_id x = tg_id m
                          \<and> username r = truncated 64 (tg_username x)
                          \<and> first_name r = truncated 128 (tg_first_name x)))"
  proof (intro ballI impI)
    fix m assume m: "m \<in> set (new_chat_members ev)" "\<not> is_bot m"
    then have "tg_id m \<in> tg_id ` set ?ms" by simp
    with rows obtain r x where "users d' (tg_id m) = Some r"
      "upserted now (tg_id m) (users (store st) (tg_id m)) r"
      "x \<in> set ?ms" "tg_id x = tg_id m" "username r = truncated 64 (tg_username x)"
      "first_name r = truncated 128 (tg_first_name x)"
      by blast
    then show "\<exists>r. users d' (tg_id m) = Some r
                    \<and> upserted now (tg_id m) (users (store st) (tg_id m)) r
                    \<and> (\<exists>x \<in> set (new_chat_members ev). \<not> is_bot x \<and> tg_id x = tg_id m
                          \<and> username r = truncated 64 (tg_username x)
                          \<and> first_name r = truncated 128 (tg_first_name x))"
      by auto
  qed
  have c: "\<forall>i. i \<notin> set (map tg_id ?ms) \<longrightarrow> users d' i = users (store st) i"
    using other by simp
  from a run b c s' show ?thesis by blast
qed

theorem mass_join_tracks_without_welcome_witness:
  "(case welcome_on_new_chat_members 90
           \<lparr>join_chat_id = - 100111,
            new_chat_members = map (\<lambda>i. \<lparr>tg_id = i, is_bot = False, tg_username = None,
                                          tg_first_name = Some ''New''\<rparr>)
                                   [1, 2, 3, 4, 5, 6, 7, 8, 9, 10, 11]\<rparr>
           ((startup (Some (- 100111)) (Some (- 100999)))
              \<lparr>store := \<lparr>users = [3 \<mapsto> \<lparr>user_id = 3, username = Some ''old'', first_name = Some ''Old'',
                                          introduced = True, introduced_at = Some 50, joined_at = 10,
                                          intro_msg_id = Some 42, updated_at = 50\<rparr>],
                          settings = Map.empty\<rparr>\<rparr>) of
      Inl e \<Rightarrow> False
    | Inr (sent, st') \<Rightarrow>
        sent = [] \<and> dom (users (store st')) = {1, 2, 3, 4, 5, 6, 7, 8, 9, 10, 11}
        \<and> users (store st') 3 = Some \<lparr>user_id = 3, username = None, first_name = Some ''New'',
                                        introduced = True, introduced_at = Some 50, joined_at = 10,
                                        intro_msg_id = Some 42, updated_at = 90\<rparr>
        \<and> users (store st') 11 = Some \<lparr>user_id = 11, username = None, first_name = Some ''New'',
                                         introduced = False, introduced_at = None, joined_at = 90,
                                         intro_msg_id = None, updated_at = 90\<rparr>)"
proof -
  let ?ev = "\<lparr>join_chat_id = - 100111,
            new_chat_members = map (\<lambda>i. \<lparr>tg_id = i, is_bot = False, tg_username = None,
                                          tg_first_name = Some ''New''\<rparr>)
                                   [1, 2, 3, 4, 5, 6, 7, 8, 9, 10, 11]\<rparr>"
  let ?st = "(startup (Some (- 100111)) (Some (- 100999)))
              \<lparr>store := \<lparr>users = [3 \<mapsto> \<lparr>user_id = 3, username = Some ''old'', first_name = Some ''Old'',
                                          introduced = True, introduced_at = Some 50, joined_at = 10,
                                          intro_msg_id = Some 42, updated_at = 50\<rparr>],
                          settings = Map.empty\<rparr>\<rparr>"
  have h1: "mainGroupId ?st = Some (join_chat_id ?ev)"
    by (simp add: startup_def)
  have h2: "length (new_chat_members ?ev) > MAX_NEW_MEMBERS_PER_EVENT"
    by (simp add: MAX_NEW_MEMBERS_PER_EVENT_def)
  have h3: "\<forall>m \<in> set (new_chat_members ?ev). \<not> is_bot m \<longrightarrow> is_telegram_id (tg_id m)"
    by (simp add: is_telegram_id_def)
  from mass_join_tracks_without_welcome [OF h1 h2 h3, of 90] obtain d' where
    res: "welcome_on_new_chat_members 90 ?ev ?st = Inr ([], ?st\<lparr>store := d'\<rparr>)"
    and run: "upsert_all 90 (filter (\<lambda>m. \<not> is_bot m) (new_chat_members ?ev)) (store ?st) = Inr d'"
    by blast
  from run have eq: "users d' =
      (((users (store ?st))
         (1 \<mapsto> \<lparr>user_id = 1, username = None, first_name = Some ''New'',
                 introduced = False, introduced_at = None, joined_at = 90,
                 intro_msg_id = None, updated_at = 90\<rparr>,
          2 \<mapsto> \<lparr>user_id = 2, username = None, first_name = Some ''New'',
                 introduced = False, introduced_at = None, joined_at = 90,
                 intro_msg_id = None, updated_at = 90\<rparr>,
          3 \<mapsto> \<lparr>user_id = 3, username = None, first_name = Some ''New'',
                 introduced = True, introduced_at = Some 50, joined_at = 10,
                 intro_msg_id = Some 42, updated_at = 90\<rparr>,
          4 \<mapsto> \<lparr>user_id = 4, username = None, first_name = Some ''New'',
                 introduced = False, introduced_at = None, joined_at = 90,
                 intro_msg_id = None, updated_at = 90\<rparr>,
          5 \<mapsto> \<lparr>user_id = 5, username = None, first_name = Some ''New'',
                 introduced = False, introduced_at = None, joined_at = 90,
                 intro_msg_id = None, updated_at = 90\<rparr>,
          6 \<mapsto> \<lparr>user_id = 6, username = None, first_name = Some ''New'',
                 introduced = False, introduced_at = None, joined_at = 90,
                 intro_msg_id = None, updated_at = 90\<rparr>,
          7 \<mapsto> \<lparr>user_id = 7, username = None, first_name = Some ''New'',
                 introduced = False, introduced_at = None, joined_at = 90,
                 intro_msg_id = None, updated_at = 90\<rparr>,
          8 \<mapsto> \<lparr>user_id = 8, username = None, first_name = Some ''New'',
                 introduced = False, introduced_at = None, joined_at = 90,
                 intro_msg_id = None, updated_at = 90\<rparr>,
          9 \<mapsto> \<lparr>user_id = 9, username = None, first_name = Some ''New'',
                 introduced = False, introduced_at = None, joined_at = 90,
                 intro_msg_id = None, updated_at = 90\<rparr>,
          10 \<mapsto> \<lparr>user_id = 10, username = None, first_name = Some ''New'',
                 introduced = False, introduced_at = None, joined_at = 90,
                 intro_msg_id = None, updated_at = 90\<rparr>,
          11 \<mapsto> \<lparr>user_id = 11, username = None, first_name = Some ''New'',
                 introduced = False, introduced_at = None, joined_at = 90,
                 intro_msg_id = None, updated_at = 90\<rparr>)))"
    by (auto simp add: upsertUser_def assertSafeInteger_def truncated_def)
  have "dom (users d') = {11, 10, 9, 8, 7, 6, 5, 4, 3, 2, 1}"
    unfolding eq by (simp add: startup_def)
  also have "\<dots> = {1, 2, 3, 4, 5, 6, 7, 8, 9, 10, 11}"
    by (simp only: insert_commute)
  finally have dm: "dom (users d') = {1, 2, 3, 4, 5, 6, 7, 8, 9, 10, 11}" .
  have rw: "users d' 3 = Some \<lparr>user_id = 3, username = None, first_name = Some ''New'',
                            introduced = True, introduced_at = Some 50, joined_at = 10,
                            intro_msg_id = Some 42, updated_at = 90\<rparr>"
      "users d' 11 = Some \<lparr>user_id = 11, username = None, first_name = Some ''New'',
                             introduced = False, introduced_at = None, joined_at = 90,
                             intro_msg_id = None, updated_at = 90\<rparr>"
    unfolding eq by simp_all
  note d' = dm rw
  show ?thesis
    unfolding res using d' by simp
qed

section \<open>The gatekeeper\<close>

lemma isLimited_after_touch:
  "fst (isLimited t' key (touch t key c)) = (t' - t < windowMs c)"
proof -
  have "windowMs (touch t key c) = windowMs c"
    by (simp add: touch_def Let_def)
  then show ?thesis
    by (simp add: isLimited_def touch_get)
qed

lemma getUser_valid: "0 < i \<Longrightarrow> getUser i d = Inr (users d i)"
  by (simp add: getUser_def assertSafeInteger_def)

text \<open>
  Claim C4. A message in the main group from a sender with a positive identifier (as every
  Telegram user has). When the sender is a bot, or \<open>isAdmin\<close> answers true, or the sender
  has no row, or the row has \<open>introduced\<close> set, the handler calls \<open>next()\<close> and asks for no
  deletion and no reply; the store and the cooldowns are as before. Otherwise the row is
  pending: the message is deleted and the event is not passed on. If the reminder cooldown
  of the sender is active nothing else happens. If it is not, the reminder is sent, to be
  removed after \<open>REMINDER_AUTO_DELETE_MS\<close>, and the sender is touched in the cooldown map,
  which from then on reports the sender as limited.
\<close>

theorem gatekeeper_decision:
  assumes "mainGroupId st = Some (chat_id ev)" and "sender ev = Some u" and "0 < tg_id u"
  shows
    "(let (adm, a) = isAdmin tg now later (JSInteger (chat_id ev)) (JSInteger (tg_id u)) (admins st);
          st1 = st\<lparr>admins := a\<rparr>;
          row = users (store st) (tg_id u);
          result = gatekeeper_on_message tg now later ev st
      in (is_bot u \<longrightarrow> result = Inr \<lparr>passed_on = True, effects = [], state = st\<rparr>)
       \<and> (\<not> is_bot u \<and> (adm \<or> row = None \<or> (\<exists>r. row = Some r \<and> introduced r)) \<longrightarrow>
            result = Inr \<lparr>passed_on = True, effects = [], state = st1\<rparr>)
       \<and> (\<not> is_bot u \<and> \<not> adm \<and> (\<exists>r. row = Some r \<and> \<not> introduced r) \<longrightarrow>
            (if fst (isLimited later (tg_id u) (reminderCooldowns st))
             then result = Inr \<lparr>passed_on = False, effects = [DeleteMessage], state = st1\<rparr>
             else result = Inr \<lparr>passed_on = False,
                    effects = [DeleteMessage,
                               ReplyThenDeleteAfter REMINDER_MESSAGE REMINDER_AUTO_DELETE_MS],
                    state = st1\<lparr>reminderCooldowns :=
                              touch later (tg_id u) (reminderCooldowns st)\<rparr>\<rparr>
                  \<and> (0 < windowMs (reminderCooldowns st) \<longrightarrow>
                       fst (isLimited later (tg_id u)
                              (touch later (tg_id u) (reminderCooldowns st)))))))"
proof -
  obtain adm a where ia:
    "isAdmin tg now later (JSInteger (chat_id ev)) (JSInteger (tg_id u)) (admins st) = (adm, a)"
    by (cases "isAdmin tg now later (JSInteger (chat_id ev)) (JSInteger (tg_id u)) (admins st)")
  have gu: "getUser (tg_id u) (store st) = Inr (users (store st) (tg_id u))"
    using assms(3) by (simp add: getUser_valid)
  show ?thesis
    using assms(1,2)
    by (auto simp: ia gu gatekeeper_on_message_def Let_def isLimited_after_touch
             split: option.splits)
qed

theorem gatekeeper_decision_witness:
  "gatekeeper_on_message (\<lambda>c u. Some ''member'') 0 0
       \<lparr>chat_id = - 100111,
        sender = Some \<lparr>tg_id = 5, is_bot = False, tg_username = None, tg_first_name = None\<rparr>\<rparr>
       ((startup (Some (- 100111)) None)
          \<lparr>store := \<lparr>users = [5 \<mapsto> \<lparr>user_id = 5, username = None, first_name = None,
                                      introduced = False, introduced_at = None, joined_at = 0,
                                      intro_msg_id = None, updated_at = 0\<rparr>],
                      settings = Map.empty\<rparr>\<rparr>)
     = Inr \<lparr>passed_on = False,
            effects = [DeleteMessage,
                       ReplyThenDeleteAfter REMINDER_MESSAGE REMINDER_AUTO_DELETE_MS],
            state = (startup (Some (- 100111)) None)
              \<lparr>store := \<lparr>users = [5 \<mapsto> \<lparr>user_id = 5, username = None, first_name = None,
                                      introduced = False, introduced_at = None, joined_at = 0,
                                      intro_msg_id = None, updated_at = 0\<rparr>],
                          settings = Map.empty\<rparr>,
               admins := \<lparr>cache = [((- 100111, 5),
                                       \<lparr>cached_isAdmin = False, expires = ADMIN_CACHE_MS\<rparr>)],
                          resolver_calls = [(- 100111, 5)]\<rparr>,
               reminderCooldowns := \<lparr>cmap = [(5, Timestamp 0)],
                                      windowMs = REMINDER_COOLDOWN_MS, maxSize = 0\<rparr>\<rparr>\<rparr>
   \<and> map_sum id effects
        (gatekeeper_on_message (\<lambda>c u. None) 1000 1000
           \<lparr>chat_id = - 100111,
            sender = Some \<lparr>tg_id = 5, is_bot = False, tg_username = None, tg_first_name = None\<rparr>\<rparr>
           ((startup (Some (- 100111)) None)
              \<lparr>store := \<lparr>users = [5 \<mapsto> \<lparr>user_id = 5, username = None, first_name = None,
                                      introduced = False, introduced_at = None, joined_at = 0,
                                      intro_msg_id = None, updated_at = 0\<rparr>],
                          settings = Map.empty\<rparr>,
               reminderCooldowns := \<lparr>cmap = [(5, Timestamp 0)],
                                      windowMs = REMINDER_COOLDOWN_MS, maxSize = 0\<rparr>\<rparr>))
       = Inr [DeleteMessage]"
proof -
  let ?u = "\<lparr>tg_id = 5, is_bot = False, tg_username = None, tg_first_name = None\<rparr>"
  let ?ev = "\<lparr>chat_id = - 100111, sender = Some ?u\<rparr>"
  let ?st = "(startup (Some (- 100111)) None)
          \<lparr>store := \<lparr>users = [5 \<mapsto> \<lparr>user_id = 5, username = None, first_name = None,
                                      introduced = False, introduced_at = None, joined_at = 0,
                                      intro_msg_id = None, updated_at = 0\<rparr>],
                      settings = Map.empty\<rparr>\<rparr>"
  have h: "mainGroupId ?st = Some (chat_id ?ev)" "sender ?ev = Some ?u" "0 < tg_id ?u"
    by (simp_all add: startup_def)
  have ia: "isAdmin (\<lambda>c u. Some ''member'') 0 0 (JSInteger (chat_id ?ev)) (JSInteger (tg_id ?u)) (admins ?st)
        = (False, \<lparr>cache = [((- 100111, 5), \<lparr>cached_isAdmin = False, expires = ADMIN_CACHE_MS\<rparr>)],
                   resolver_calls = [(- 100111, 5)]\<rparr>)"
    by (simp add: startup_def isAdmin_def resolve_def map_get_def map_size_def ADMIN_CACHE_MAX_def)
  have lim: "\<not> fst (isLimited 0 (tg_id ?u) (reminderCooldowns ?st))"
    by (simp add: startup_def isLimited_def new_CooldownMap_def map_get_def)
  have tch: "touch 0 (tg_id ?u) (reminderCooldowns ?st)
        = \<lparr>cmap = [(5, Timestamp 0)], windowMs = REMINDER_COOLDOWN_MS, maxSize = 0\<rparr>"
    by (simp add: startup_def touch_def new_CooldownMap_def)
  have first: "gatekeeper_on_message (\<lambda>c u. Some ''member'') 0 0 ?ev ?st
     = Inr \<lparr>passed_on = False,
            effects = [DeleteMessage,
                       ReplyThenDeleteAfter REMINDER_MESSAGE REMINDER_AUTO_DELETE_MS],
            state = ?st
              \<lparr>admins := \<lparr>cache = [((- 100111, 5),
                                       \<lparr>cached_isAdmin = False, expires = ADMIN_CACHE_MS\<rparr>)],
                          resolver_calls = [(- 100111, 5)]\<rparr>,
               reminderCooldowns := \<lparr>cmap = [(5, Timestamp 0)],
                                      windowMs = REMINDER_COOLDOWN_MS, maxSize = 0\<rparr>\<rparr>\<rparr>"
    using gatekeeper_decision [OF h, of "\<lambda>c u. Some ''member''" 0 0] lim
    unfolding ia tch Let_def
    by (simp add: startup_def)
  let ?st2 = "(startup (Some (- 100111)) None)
              \<lparr>store := \<lparr>users = [5 \<mapsto> \<lparr>user_id = 5, username = None, first_name = None,
                                      introduced = False, introduced_at = None, joined_at = 0,
                                      intro_msg_id = None, updated_at = 0\<rparr>],
                          settings = Map.empty\<rparr>,
               reminderCooldowns := \<lparr>cmap = [(5, Timestamp 0)],
                                      windowMs = REMINDER_COOLDOWN_MS, maxSize = 0\<rparr>\<rparr>"
  have h2: "mainGroupId ?st2 = Some (chat_id ?ev)"
    by (simp add: startup_def)
  have ia2: "isAdmin (\<lambda>c u. None) 1000 1000 (JSInteger (chat_id ?ev)) (JSInteger (tg_id ?u)) (admins ?st2)
        = (False, \<lparr>cache = [], resolver_calls = [(- 100111, 5)]\<rparr>)"
    by (simp add: startup_def isAdmin_def resolve_def map_get_def)
  have lim2: "fst (isLimited 1000 (tg_id ?u) (reminderCooldowns ?st2))"
    by (simp add: isLimited_def map_get_def REMINDER_COOLDOWN_MS_def)
  have second: "map_sum id effects (gatekeeper_on_message (\<lambda>c u. None) 1000 1000 ?ev ?st2)
                  = Inr [DeleteMessage]"
    using gatekeeper_decision [OF h2 h(2,3), of "\<lambda>c u. None" 1000 1000] lim2
    unfolding ia2 Let_def
    by simp
  from first second show ?thesis
    by (simp add: startup_def)
qed

section \<open>The introduction validator\<close>

lemma take_is_prefix: "(take (length t) s = t) = (\<exists>after. s = t @ after)"
proof
  assume "take (length t) s = t"
  then have "s = t @ drop (length t) s"
    by (metis append_take_drop_id)
  then show "\<exists>after. s = t @ after" ..
next
  assume "\<exists>after. s = t @ after"
  then show "take (length t) s = t" by auto
qed

lemma includes_str_iff: "includes_str s t = (\<exists>before after. s = before @ t @ after)"
proof (induction s)
  case Nil
  then show ?case by auto
next
  case (Cons x xs)
  have "(\<exists>before after. x # xs = before @ t @ after)
          = ((\<exists>after. x # xs = t @ after) \<or> (\<exists>before after. xs = before @ t @ after))"
  proof
    assume "\<exists>before after. x # xs = before @ t @ after"
    then obtain b a where ba: "x # xs = b @ t @ a" by blast
    show "(\<exists>after. x # xs = t @ after) \<or> (\<exists>before after. xs = before @ t @ after)"
    proof (cases b)
      case Nil
      with ba show ?thesis by auto
    next
      case (Cons y ys)
      with ba have "xs = ys @ t @ a" by simp
      then show ?thesis by blast
    qed
  next
    assume "(\<exists>after. x # xs = t @ after) \<or> (\<exists>before after. xs = before @ t @ after)"
    then show "\<exists>before after. x # xs = before @ t @ after"
    proof
      assume "\<exists>after. x # xs = t @ after"
      then obtain a where "x # xs = [] @ t @ a" by auto
      then show ?thesis by blast
    next
      assume "\<exists>before after. xs = before @ t @ after"
      then obtain b a where "x # xs = (x # b) @ t @ a" by auto
      then show ?thesis by blast
    qed
  qed
  then show ?case
    by (simp only: includes_str.simps Cons.IH take_is_prefix)
qed

lemma distinct_INTRO_KEYWORDS: "distinct INTRO_KEYWORDS"
  by (simp add: INTRO_KEYWORDS_def js_literal_def)

lemma matches_length:
  "length (filter (\<lambda>kw. includes_str (lc text) (lc kw)) INTRO_KEYWORDS)
     = matchedKeywords lc text"
proof -
  have "{kw. kw \<in> set INTRO_KEYWORDS \<and> occurs_in lc kw text}
          = {kw. includes_str (lc text) (lc kw)} \<inter> set INTRO_KEYWORDS"
    by (auto simp: occurs_in_def includes_str_iff)
  then show ?thesis
    by (simp add: matchedKeywords_def distinct_length_filter [OF distinct_INTRO_KEYWORDS])
qed

text \<open>
  Claim C3. Whatever the runtime's lower-casing is, \<open>isValidIntro\<close> accepts a text exactly
  when its length, in UTF-16 units, is at least 50 and at most 4000 and either at least two
  of the configured keywords occur in it as substrings, letter case ignored and each
  keyword counted once, or its length is at least 150. A text of length 49 is rejected,
  and so is a text of length 4001, whatever it contains.
\<close>

theorem isValidIntro_iff:
  "isValidIntro toLowerCase text =
     (50 \<le> length text \<and> length text \<le> 4000
      \<and> (2 \<le> matchedKeywords toLowerCase text \<or> 150 \<le> length text))
   \<and> (length text = 49 \<longrightarrow> \<not> isValidIntro toLowerCase text)
   \<and> (length text = 4001 \<longrightarrow> \<not> isValidIntro toLowerCase text)"
proof -
  have main: "isValidIntro toLowerCase text =
     (50 \<le> length text \<and> length text \<le> 4000
      \<and> (2 \<le> matchedKeywords toLowerCase text \<or> 150 \<le> length text))"
    unfolding isValidIntro_def Let_def matches_length
    by (auto simp: INTRO_MIN_LENGTH_def INTRO_MAX_LENGTH_def INTRO_KEYWORD_BYPASS_LENGTH_def)
  then show ?thesis by auto
qed

theorem isValidIntro_iff_witness:
  "isValidIntro ascii_toLowerCase (js_literal ''Who are you? I am Ali from KL. FUN FACT: I like cats.'')
   \<and> 2 \<le> matchedKeywords ascii_toLowerCase
            (js_literal ''Who are you? I am Ali from KL. FUN FACT: I like cats.'')
   \<and> \<not> isValidIntro ascii_toLowerCase (replicate 49 97)
   \<and> \<not> isValidIntro ascii_toLowerCase (replicate 4001 97)
   \<and> \<not> isValidIntro ascii_toLowerCase (replicate 80 257)
   \<and> matchedKeywords ascii_toLowerCase (replicate 80 257) < 2"
proof -
  let ?t = "js_literal ''Who are you? I am Ali from KL. FUN FACT: I like cats.''"
  have v: "isValidIntro ascii_toLowerCase ?t"
    by code_simp
  have "length ?t = 53"
    by (simp add: js_literal_def)
  with v isValidIntro_iff [of ascii_toLowerCase ?t]
  have a: "2 \<le> matchedKeywords ascii_toLowerCase ?t"
    by simp
  have b: "\<not> isValidIntro ascii_toLowerCase (replicate 49 97)"
    using isValidIntro_iff [of ascii_toLowerCase "replicate 49 97"] by simp
  have c: "\<not> isValidIntro ascii_toLowerCase (replicate 4001 97)"
    using isValidIntro_iff [of ascii_toLowerCase "replicate 4001 97"] by simp
  have d: "\<not> isValidIntro ascii_toLowerCase (replicate 80 257)"
    by code_simp
  with isValidIntro_iff [of ascii_toLowerCase "replicate 80 257"]
  have e: "matchedKeywords ascii_toLowerCase (replicate 80 257) < 2"
    by simp
  from v a b c d e show ?thesis by blast
qed

end
